theory Spec2Isabelle
  imports Main
begin

section \<open>The linked lists behind the registries\<close>

text \<open>
  plugin.c keeps its callbacks and data sets in linked lists of utils_llist.c, which is
  not among the sources; the functions of that file are modelled from the spec, each
  marked so. A list is the sequence of its entries from head to tail, an entry a key
  and a value. An \<open>llist_t *\<close> is an optional list (\<open>None\<close> is \<open>NULL\<close>); an
  \<open>llentry_t *\<close> that points into a list is the position of the entry in it.
\<close>

type_synonym 'a llentry = "string \<times> 'a"
type_synonym 'a llist = "'a llentry list"

text \<open>
  Modelled from the spec: \<open>llist_create\<close> (utils_llist.c is missing) returns a new empty
  list, or \<open>NULL\<close> when memory is exhausted (spec 4.1: registration "fails only on
  allocation/resource exhaustion"). The argument says whether the allocation succeeds.
\<close>

definition llist_create :: "bool \<Rightarrow> 'a llist option" where
  "llist_create mem = (if mem then Some [] else None)"

text \<open>
  Modelled from the spec: \<open>llentry_create\<close> (utils_llist.c is missing) returns a new
  entry for the key and the value, or \<open>NULL\<close> when memory is exhausted.
\<close>

definition llentry_create :: "bool \<Rightarrow> string \<Rightarrow> 'a \<Rightarrow> 'a llentry option" where
  "llentry_create mem key val = (if mem then Some (key, val) else None)"

text \<open>
  Modelled from the spec: \<open>llist_append\<close> (utils_llist.c is missing) puts the entry at
  the tail (spec 3: "insertion order is preserved and defines invocation order").
\<close>

definition llist_append :: "'a llist \<Rightarrow> 'a llentry \<Rightarrow> 'a llist" where
  "llist_append l e = l @ [e]"

text \<open>
  The entries a list pointer leads to: none for \<open>NULL\<close> (spec 4.1: a never-populated
  registry is "a valid, inert state").
\<close>

definition llist_entries :: "'a llist option \<Rightarrow> 'a llentry list" where
  "llist_entries list = (case list of None \<Rightarrow> [] | Some l \<Rightarrow> l)"

text \<open>
  Modelled from the spec: \<open>llist_search\<close> (utils_llist.c is missing) returns the first
  entry with the given key, or \<open>NULL\<close> ("not found", spec 4.1 and 4.2).
\<close>

fun llist_search_loop :: "'a llentry list \<Rightarrow> string \<Rightarrow> nat option" where
  "llist_search_loop [] key = None"
| "llist_search_loop (e # l) key =
     (if fst e = key then Some 0 else map_option Suc (llist_search_loop l key))"

definition llist_search :: "'a llist option \<Rightarrow> string \<Rightarrow> nat option" where
  "llist_search list key = llist_search_loop (llist_entries list) key"

text \<open>
  Modelled from the spec: \<open>llist_head\<close> (utils_llist.c is missing) returns the first
  entry; following \<open>next\<close> from it visits the entries in insertion order.
\<close>

definition llist_head :: "'a llist \<Rightarrow> 'a llentry list" where
  "llist_head l = l"

section \<open>Registration\<close>

text \<open>
  \<open>register_callback\<close> (lines 53 to 76). The two flags say whether the allocation in
  \<open>llist_create\<close> and in \<open>llentry_create\<close> succeeds, should the call get there. The
  result is the returned status and the new value of \<open>*list\<close>.
\<close>

definition register_callback ::
  "bool \<Rightarrow> bool \<Rightarrow> 'a llist option \<Rightarrow> string \<Rightarrow> 'a \<Rightarrow> int \<times> 'a llist option" where
  "register_callback list_mem entry_mem list name callback =
     (case (if list = None then llist_create list_mem else list) of
        None \<Rightarrow> (- 1, None)
      | Some l \<Rightarrow>
          (case llist_search (Some l) name of
             None \<Rightarrow>
               (case llentry_create entry_mem name callback of
                  None \<Rightarrow> (- 1, Some l)
                | Some le \<Rightarrow> (0, Some (llist_append l le)))
           | Some le \<Rightarrow> (0, Some (l[le := (fst (l ! le), callback)]))))"

text \<open>
  Modelled from the spec: \<open>data_set_t\<close> is declared in plugin.h, which is missing; the
  spec describes it as a named schema of the fields of a measurement. Only the name
  \<open>type\<close> is used by plugin.c.
\<close>

record 'src data_set =
  type :: string
  ds :: "'src list"

text \<open>
  A callback is opaque code that runs on the rest of the program's state \<open>'w\<close> and
  returns a status. The callbacks of a sweep run outside the registries: none of them
  registers anything while the sweep is under way (spec 5).
\<close>

type_synonym 'w callback = "'w \<Rightarrow> int \<times> 'w"
type_synonym ('src, 'vl, 'w) write_callback = "'src data_set \<Rightarrow> 'vl \<Rightarrow> 'w \<Rightarrow> int \<times> 'w"

text \<open>The private variables of plugin.c (lines 34 to 40).\<close>

record ('src, 'vl, 'w) plugin =
  list_init :: "'w callback llist option"
  list_read :: "'w callback llist option"
  list_write :: "('src, 'vl, 'w) write_callback llist option"
  list_shutdown :: "'w callback llist option"
  list_data_set :: "'src data_set llist option"
  plugindir :: "string option"

text \<open>Static variables start as \<open>NULL\<close>.\<close>

definition plugin_start :: "('src, 'vl, 'w) plugin" where
  "plugin_start = \<lparr>list_init = None, list_read = None, list_write = None,
     list_shutdown = None, list_data_set = None, plugindir = None\<rparr>"

definition plugin_register_init ::
  "bool \<Rightarrow> bool \<Rightarrow> ('src, 'vl, 'w) plugin \<Rightarrow> string \<Rightarrow> 'w callback \<Rightarrow>
     int \<times> ('src, 'vl, 'w) plugin" where
  "plugin_register_init list_mem entry_mem p name callback =
     (case register_callback list_mem entry_mem (list_init p) name callback of
        (status, list) \<Rightarrow> (status, p\<lparr>list_init := list\<rparr>))"

definition plugin_register_read ::
  "bool \<Rightarrow> bool \<Rightarrow> ('src, 'vl, 'w) plugin \<Rightarrow> string \<Rightarrow> 'w callback \<Rightarrow>
     int \<times> ('src, 'vl, 'w) plugin" where
  "plugin_register_read list_mem entry_mem p name callback =
     (case register_callback list_mem entry_mem (list_read p) name callback of
        (status, list) \<Rightarrow> (status, p\<lparr>list_read := list\<rparr>))"

definition plugin_register_write ::
  "bool \<Rightarrow> bool \<Rightarrow> ('src, 'vl, 'w) plugin \<Rightarrow> string \<Rightarrow> ('src, 'vl, 'w) write_callback \<Rightarrow>
     int \<times> ('src, 'vl, 'w) plugin" where
  "plugin_register_write list_mem entry_mem p name callback =
     (case register_callback list_mem entry_mem (list_write p) name callback of
        (status, list) \<Rightarrow> (status, p\<lparr>list_write := list\<rparr>))"

definition plugin_register_shutdown ::
  "bool \<Rightarrow> bool \<Rightarrow> ('src, 'vl, 'w) plugin \<Rightarrow> string \<Rightarrow> 'w callback \<Rightarrow>
     int \<times> ('src, 'vl, 'w) plugin" where
  "plugin_register_shutdown list_mem entry_mem p name callback =
     (case register_callback list_mem entry_mem (list_shutdown p) name callback of
        (status, list) \<Rightarrow> (status, p\<lparr>list_shutdown := list\<rparr>))"

definition plugin_register_data_set ::
  "bool \<Rightarrow> bool \<Rightarrow> ('src, 'vl, 'w) plugin \<Rightarrow> 'src data_set \<Rightarrow> int \<times> ('src, 'vl, 'w) plugin" where
  "plugin_register_data_set list_mem entry_mem p d =
     (case register_callback list_mem entry_mem (list_data_set p) (type d) d of
        (status, list) \<Rightarrow> (status, p\<lparr>list_data_set := list\<rparr>))"

text \<open>
  A registry as a program can build it: any sequence of \<open>register_callback\<close> calls on
  one list variable, each with its own allocation outcome.
\<close>

fun registrations :: "'a llist option \<Rightarrow> (bool \<times> bool \<times> string \<times> 'a) list \<Rightarrow> 'a llist option" where
  "registrations list [] = list"
| "registrations list ((list_mem, entry_mem, name, callback) # rs) =
     registrations (snd (register_callback list_mem entry_mem list name callback)) rs"

text \<open>No two entries of a list share a key.\<close>

definition distinct_keys :: "'a llist option \<Rightarrow> bool" where
  "distinct_keys list = distinct (map fst (llist_entries list))"

section \<open>The sweeps and the dispatch\<close>

text \<open>
  The loop of \<open>plugin_init_all\<close> (lines 244 to 251) and of \<open>plugin_shutdown_all\<close>
  (lines 280 to 287): every callback is called, its status dropped. Next to the state
  the callbacks leave, the model returns the keys of the entries whose callbacks were
  called, in the order of the calls.
\<close>

fun plugin_all_loop :: "'w callback llentry list \<Rightarrow> 'w \<Rightarrow> 'w \<times> string list" where
  "plugin_all_loop [] w = (w, [])"
| "plugin_all_loop (le # next) w =
     (case snd le w of
        (status, w') \<Rightarrow>
          (case plugin_all_loop next w' of
             (w'', called) \<Rightarrow> (w'', fst le # called)))"

definition plugin_init_all :: "('src, 'vl, 'w) plugin \<Rightarrow> 'w \<Rightarrow> 'w \<times> string list" where
  "plugin_init_all p w =
     (case list_init p of None \<Rightarrow> (w, []) | Some l \<Rightarrow> plugin_all_loop (llist_head l) w)"

text \<open>
  \<open>plugin_read_all\<close> (lines 254 to 270). \<open>loop\<close> reads the flag \<open>*loop\<close> off the program's
  state, which the callbacks (and whatever interrupts them) may change; the flag is read
  each time round the loop, before the test for the end of the list.
\<close>

fun plugin_read_loop :: "('w \<Rightarrow> int) \<Rightarrow> 'w callback llentry list \<Rightarrow> 'w \<Rightarrow> 'w \<times> string list" where
  "plugin_read_loop loop [] w = (w, [])"
| "plugin_read_loop loop (le # next) w =
     (if loop w = 0 then
        (case snd le w of
           (status, w') \<Rightarrow>
             (case plugin_read_loop loop next w' of
                (w'', called) \<Rightarrow> (w'', fst le # called)))
      else (w, []))"

definition plugin_read_all ::
  "('w \<Rightarrow> int) \<Rightarrow> ('src, 'vl, 'w) plugin \<Rightarrow> 'w \<Rightarrow> 'w \<times> string list" where
  "plugin_read_all loop p w =
     (case list_read p of None \<Rightarrow> (w, []) | Some l \<Rightarrow> plugin_read_loop loop (llist_head l) w)"

definition plugin_shutdown_all :: "('src, 'vl, 'w) plugin \<Rightarrow> 'w \<Rightarrow> 'w \<times> string list" where
  "plugin_shutdown_all p w =
     (case list_shutdown p of None \<Rightarrow> (w, []) | Some l \<Rightarrow> plugin_all_loop (llist_head l) w)"

text \<open>
  \<open>plugin_dispatch_values\<close> (lines 290 to 315). The result is the returned status, the
  state the write callbacks leave, and the calls made: the key of the entry and the two
  arguments of each, in order.
\<close>

fun plugin_dispatch_loop ::
  "'src data_set \<Rightarrow> 'vl \<Rightarrow> ('src, 'vl, 'w) write_callback llentry list \<Rightarrow> 'w \<Rightarrow>
     'w \<times> (string \<times> 'src data_set \<times> 'vl) list" where
  "plugin_dispatch_loop d vl [] w = (w, [])"
| "plugin_dispatch_loop d vl (le # next) w =
     (case snd le d vl w of
        (status, w') \<Rightarrow>
          (case plugin_dispatch_loop d vl next w' of
             (w'', called) \<Rightarrow> (w'', (fst le, d, vl) # called)))"

definition plugin_dispatch_values ::
  "('src, 'vl, 'w) plugin \<Rightarrow> string \<Rightarrow> 'vl \<Rightarrow> 'w \<Rightarrow>
     int \<times> 'w \<times> (string \<times> 'src data_set \<times> 'vl) list" where
  "plugin_dispatch_values p name vl w =
     (case list_write p of
        None \<Rightarrow> (- 1, w, [])
      | Some wl \<Rightarrow>
          (case llist_search (list_data_set p) name of
             None \<Rightarrow> (- 1, w, [])
           | Some le \<Rightarrow>
               (let d = snd (llist_entries (list_data_set p) ! le)
                in case plugin_dispatch_loop d vl (llist_head wl) w of
                     (w', called) \<Rightarrow> (0, w', called))))"

section \<open>The module loader\<close>

definition BUFSIZE :: nat where
  "BUFSIZE = 512"

text \<open>
  \<open>strncasecmp\<close> is the C library's: it compares at most \<open>n\<close> characters, ignoring the
  case of the ASCII letters, a string that ends counting as smaller; POSIX fixes the sign
  of the result only.
\<close>

definition tolower :: "char \<Rightarrow> char" where
  "tolower c =
     (let n = (of_char c :: nat) in if 65 \<le> n \<and> n \<le> 90 then char_of (n + 32) else c)"

fun strncasecmp :: "string \<Rightarrow> string \<Rightarrow> nat \<Rightarrow> int" where
  "strncasecmp s1 s2 0 = 0"
| "strncasecmp [] [] (Suc n) = 0"
| "strncasecmp [] (b # s2) (Suc n) = - 1"
| "strncasecmp (a # s1) [] (Suc n) = 1"
| "strncasecmp (a # s1) (b # s2) (Suc n) =
     (if tolower a = tolower b then strncasecmp s1 s2 n
      else if (of_char (tolower a) :: nat) < of_char (tolower b) then - 1 else 1)"

text \<open>
  What the loader sees of the host: \<open>opendir\<close> and \<open>readdir\<close> give the names in a
  directory in the order of enumeration, or nothing when the directory cannot be opened;
  \<open>lstat\<close> fails (\<open>None\<close>) or tells whether the file is a regular one (\<open>S_ISREG\<close>);
  \<open>lt_dlopen\<close> gives a handle or \<open>NULL\<close>; \<open>lt_dlsym\<close> gives the code behind a symbol, which
  runs on the program's state \<open>'w\<close>, or \<open>NULL\<close>. The messages the loader writes to syslog
  are left out.
\<close>

record ('h, 'w) host =
  opendir :: "string \<Rightarrow> string list option"
  lstat :: "string \<Rightarrow> bool option"
  lt_dlopen :: "string \<Rightarrow> 'h option"
  lt_dlsym :: "'h \<Rightarrow> string \<Rightarrow> ('w \<Rightarrow> 'w) option"

text \<open>
  \<open>plugin_get_dir\<close> (lines 45 to 51); the macro \<open>PLUGINDIR\<close> is defined outside the
  sources and is a parameter. \<open>plugin_set_dir\<close> (lines 118 to 127): the flag says whether
  \<open>strdup\<close> succeeds.
\<close>

definition plugin_get_dir :: "string \<Rightarrow> ('src, 'vl, 'w) plugin \<Rightarrow> string" where
  "plugin_get_dir PLUGINDIR p = (case plugindir p of None \<Rightarrow> PLUGINDIR | Some dir \<Rightarrow> dir)"

definition plugin_set_dir ::
  "bool \<Rightarrow> ('src, 'vl, 'w) plugin \<Rightarrow> string option \<Rightarrow> ('src, 'vl, 'w) plugin" where
  "plugin_set_dir mem p dir =
     (case dir of
        None \<Rightarrow> p\<lparr>plugindir := None\<rparr>
      | Some d \<Rightarrow> p\<lparr>plugindir := (if mem then Some d else None)\<rparr>)"

text \<open>\<open>plugin_load_file\<close> (lines 83 to 113).\<close>

definition plugin_load_file :: "('h, 'w) host \<Rightarrow> string \<Rightarrow> 'w \<Rightarrow> int \<times> 'w" where
  "plugin_load_file host file w =
     (case lt_dlopen host file of
        None \<Rightarrow> (1, w)
      | Some dlh \<Rightarrow>
          (case lt_dlsym host dlh ''module_register'' of
             None \<Rightarrow> (- 1, w)
           | Some reg_handle \<Rightarrow> (0, reg_handle w)))"

text \<open>
  \<open>plugin_load\<close> (lines 130 to 194). The loop runs over the entries \<open>readdir\<close> returns;
  \<open>snprintf\<close> returns the length of the whole text, so the two tests against \<open>BUFSIZE\<close>
  are tests on lengths. Next to the status and the state, the model returns the files
  handed to \<open>plugin_load_file\<close>, in order.
\<close>

fun plugin_load_loop ::
  "('h, 'w) host \<Rightarrow> string \<Rightarrow> string \<Rightarrow> string list \<Rightarrow> 'w \<Rightarrow> int \<times> 'w \<times> string list" where
  "plugin_load_loop host dir typename [] w = (1, w, [])"
| "plugin_load_loop host dir typename (d_name # des) w =
     (if strncasecmp d_name typename (length typename) \<noteq> 0
        then plugin_load_loop host dir typename des w
      else if length dir + 1 + length d_name \<ge> BUFSIZE
        then plugin_load_loop host dir typename des w
      else
        (let filename = dir @ ''/'' @ d_name
         in case lstat host filename of
              None \<Rightarrow> plugin_load_loop host dir typename des w
            | Some isreg \<Rightarrow>
                if \<not> isreg then plugin_load_loop host dir typename des w
                else
                  (case plugin_load_file host filename w of
                     (status, w') \<Rightarrow>
                       if status = 0 then (0, w', [filename])
                       else
                         (case plugin_load_loop host dir typename des w' of
                            (ret, w'', tried) \<Rightarrow> (ret, w'', filename # tried)))))"

definition plugin_load ::
  "('h, 'w) host \<Rightarrow> string \<Rightarrow> ('src, 'vl, 'w) plugin \<Rightarrow> string \<Rightarrow> 'w \<Rightarrow> int \<times> 'w \<times> string list" where
  "plugin_load host PLUGINDIR p type_arg w =
     (let dir = plugin_get_dir PLUGINDIR p
      in if length type_arg + 3 \<ge> BUFSIZE then (- 1, w, [])
         else
           (let typename = type_arg @ ''.so''
            in case opendir host dir of
                 None \<Rightarrow> (- 1, w, [])
               | Some des \<Rightarrow> plugin_load_loop host dir typename des w))"

text \<open>
  The spec's words for claim C9. A candidate for the type \<open>t\<close> is an entry whose name
  begins, case ignored, with \<open>t\<close> followed by \<open>.so\<close>. A candidate is tried when its path
  fits the buffer and it is a regular file; it activates when moreover the shared object
  opens and has the symbol \<open>module_register\<close>.
\<close>

definition is_candidate :: "string \<Rightarrow> string \<Rightarrow> bool" where
  "is_candidate t d_name =
     (map tolower (take (length (t @ ''.so'')) d_name) = map tolower (t @ ''.so''))"

definition is_tried :: "('h, 'w) host \<Rightarrow> string \<Rightarrow> string \<Rightarrow> string \<Rightarrow> bool" where
  "is_tried host dir t d_name =
     (is_candidate t d_name \<and> length dir + 1 + length d_name < BUFSIZE \<and>
      lstat host (dir @ ''/'' @ d_name) = Some True)"

definition activates :: "('h, 'w) host \<Rightarrow> string \<Rightarrow> string \<Rightarrow> string \<Rightarrow> bool" where
  "activates host dir t d_name =
     (is_tried host dir t d_name \<and>
      (case lt_dlopen host (dir @ ''/'' @ d_name) of
         None \<Rightarrow> False
       | Some dlh \<Rightarrow> lt_dlsym host dlh ''module_register'' \<noteq> None))"

section \<open>The complaint limiter\<close>

text \<open>
  Modelled from the spec: the per-call-site state \<open>complain_t\<close> is declared in plugin.h,
  which is missing; the spec describes it as the two counters \<open>interval\<close> and
  \<open>delay\<close>, zero-initialised at first use. The counters are modelled as unbounded
  integers; lemma \<open>calls_bounds\<close> below shows that on every state reachable from the
  zero state both stay between 0 and 86400, so that the one multiplication and the one
  decrement of the code never leave the range of a machine integer, signed or unsigned,
  and the division is one of positive numbers.
\<close>

record complain_t =
  interval :: int
  delay :: int

definition complain_zero :: complain_t where
  "complain_zero = \<lparr>interval = 0, delay = 0\<rparr>"

text \<open>A failed \<open>assert\<close> aborts the process; it is a result of its own.\<close>

datatype abort = AssertionFailed

text \<open>What \<open>syslog (level, message)\<close> is handed: the level and the formatted text.\<close>

type_synonym syslog_msg = "int \<times> string"

text \<open>
  \<open>vsnprintf (message, 512, format, ap); message[511] = 0\<close>: the formatted text, cut to
  at most 511 characters. The formatting itself is the caller's business; the model takes
  the formatted text.
\<close>

definition vsnprintf512 :: "string \<Rightarrow> string" where
  "vsnprintf512 formatted = take 511 formatted"

text \<open>
  \<open>plugin_complain\<close> (lines 317 to 348). The parameter \<open>step\<close> is the value of
  \<open>atoi (COLLECTD_STEP)\<close>; the macro is defined outside the sources. The result is the
  updated state and the message passed to syslog, if any.
\<close>

definition plugin_complain ::
  "int \<Rightarrow> int \<Rightarrow> complain_t \<Rightarrow> string \<Rightarrow> abort + (complain_t \<times> syslog_msg option)" where
  "plugin_complain step level c formatted =
     (if delay c > 0 then Inr (c\<lparr>delay := delay c - 1\<rparr>, None)
      else if \<not> step > 0 then Inl AssertionFailed
      else
        let c1 = (if interval c < step then c\<lparr>interval := step\<rparr>
                  else c\<lparr>interval := interval c * 2\<rparr>);
            c2 = (if interval c1 > 86400 then c1\<lparr>interval := 86400\<rparr> else c1);
            c3 = c2\<lparr>delay := interval c2 div step\<rparr>
        in Inr (c3, Some (level, vsnprintf512 formatted)))"

text \<open>\<open>plugin_relief\<close> (lines 350 to 366).\<close>

definition plugin_relief ::
  "int \<Rightarrow> complain_t \<Rightarrow> string \<Rightarrow> complain_t \<times> syslog_msg option" where
  "plugin_relief level c formatted =
     (if interval c = 0 then (c, None)
      else (c\<lparr>interval := 0\<rparr>, Some (level, vsnprintf512 formatted)))"

subsection \<open>A call site\<close>

text \<open>
  One call site owns one state and calls the two functions in some order. A sequence of
  calls is run from left to right; the result lists, call by call, what was written to
  syslog (\<open>None\<close> for a silent call). An abort ends the run.
\<close>

datatype call = Complain int string | Relief int string

datatype event = Complained syslog_msg | Relieved syslog_msg

fun calls :: "int \<Rightarrow> call list \<Rightarrow> complain_t \<Rightarrow> abort + (complain_t \<times> event option list)" where
  "calls step [] c = Inr (c, [])"
| "calls step (Complain level m # cs) c =
     (case plugin_complain step level c m of
        Inl a \<Rightarrow> Inl a
      | Inr (c', out) \<Rightarrow>
          (case calls step cs c' of
             Inl a \<Rightarrow> Inl a
           | Inr (c'', outs) \<Rightarrow> Inr (c'', map_option Complained out # outs)))"
| "calls step (Relief level m # cs) c =
     (case plugin_relief level c m of
        (c', out) \<Rightarrow>
          (case calls step cs c' of
             Inl a \<Rightarrow> Inl a
           | Inr (c'', outs) \<Rightarrow> Inr (c'', map_option Relieved out # outs)))"

text \<open>The messages that reached syslog, in order.\<close>

fun emitted :: "event option list \<Rightarrow> event list" where
  "emitted [] = []"
| "emitted (None # outs) = emitted outs"
| "emitted (Some e # outs) = e # emitted outs"

text \<open>No relief message directly follows another relief message.\<close>

fun relief_once :: "event list \<Rightarrow> bool" where
  "relief_once (Relieved a # Relieved b # es) = False"
| "relief_once (e # es) = relief_once es"
| "relief_once [] = True"

fun starts_with_relief :: "event list \<Rightarrow> bool" where
  "starts_with_relief (Relieved a # es) = True"
| "starts_with_relief es = False"

fun is_complain :: "call \<Rightarrow> bool" where
  "is_complain (Complain level m) = True"
| "is_complain (Relief level m) = False"


text \<open>
  The spec's backoff sequence, call by call: the first call emits; after the emission
  number \<open>k\<close> the next \<open>2 ^ k\<close> calls are silent and the call after them emits.
\<close>

fun backoff_outs :: "int \<Rightarrow> string \<Rightarrow> nat \<Rightarrow> event option list" where
  "backoff_outs level m 0 = [Some (Complained (level, vsnprintf512 m))]"
| "backoff_outs level m (Suc k) =
     backoff_outs level m k @ replicate (2 ^ k) None @ [Some (Complained (level, vsnprintf512 m))]"

text \<open>The range of the two counters on the states a call site can reach.\<close>

definition complain_inv :: "complain_t \<Rightarrow> bool" where
  "complain_inv c = (0 \<le> interval c \<and> interval c \<le> 86400 \<and> 0 \<le> delay c \<and> delay c \<le> 86400)"

section \<open>Properties of the registries, the sweeps and the dispatch\<close>


lemma llist_search_loop_None: "llist_search_loop l key = None \<longleftrightarrow> key \<notin> fst ` set l"
  by (induction l) auto

lemma llist_search_loop_Some:
  "llist_search_loop l key = Some i \<Longrightarrow> i < length l \<and> fst (l ! i) = key"
proof (induction l arbitrary: i)
  case Nil
  then show ?case by simp
next
  case (Cons e l)
  then show ?case by (auto split: if_splits)
qed

lemma llist_search_loop_update:
  "llist_search_loop l key = Some i \<Longrightarrow> llist_search_loop (l[i := (key, v)]) key = Some i"
proof (induction l arbitrary: i)
  case Nil
  then show ?case by simp
next
  case (Cons e l)
  then show ?case by (auto split: if_splits)
qed

lemma llist_search_loop_append_fresh:
  "llist_search_loop l key = None \<Longrightarrow> llist_search_loop (l @ [(key, v)]) key = Some (length l)"
  by (induction l) (auto split: if_splits)

lemma register_callback_distinct:
  "distinct_keys list \<Longrightarrow>
     distinct_keys (snd (register_callback list_mem entry_mem list name callback))"
proof (cases "if list = None then llist_create list_mem else list")
  case None
  then show ?thesis by (simp add: register_callback_def distinct_keys_def llist_entries_def)
next
  case (Some l)
  assume d: "distinct_keys list"
  from Some have l: "distinct (map fst l)"
    using d by (auto simp: distinct_keys_def llist_entries_def llist_create_def split: if_splits)
  show ?thesis
  proof (cases "llist_search_loop l name")
    case None
    then have "name \<notin> fst ` set l" by (simp add: llist_search_loop_None)
    with l Some None show ?thesis
      by (auto simp: register_callback_def distinct_keys_def llist_entries_def llist_search_def
          llentry_create_def llist_append_def)
  next
    case Some2: (Some i)
    from llist_search_loop_Some [OF Some2] have i: "i < length l" "fst (l ! i) = name" by simp_all
    then have "map fst (l[i := (fst (l ! i), callback)]) = map fst l"
      by (simp add: map_update list_update_same_conv)
    with l Some Some2 show ?thesis
      by (simp add: register_callback_def distinct_keys_def llist_entries_def llist_search_def)
  qed
qed

lemma registrations_distinct:
  "distinct_keys list \<Longrightarrow> distinct_keys (registrations list rs)"
proof (induction rs arbitrary: list)
  case Nil
  then show ?case by simp
next
  case (Cons r rs)
  obtain list_mem entry_mem name callback where r: "r = (list_mem, entry_mem, name, callback)"
    by (cases r)
  from Cons.IH [OF register_callback_distinct [OF Cons.prems]] show ?case by (simp add: r)
qed

lemma register_callback_ok:
  assumes "register_callback list_mem entry_mem list name c1 = (0, list1)"
  shows "\<exists>l i. list1 = Some l \<and> llist_search_loop l name = Some i \<and> l ! i = (name, c1)"
proof (cases "if list = None then llist_create list_mem else list")
  case None
  with assms show ?thesis by (simp add: register_callback_def)
next
  case (Some l)
  show ?thesis
  proof (cases "llist_search_loop l name")
    case None
    with Some assms have "list1 = Some (l @ [(name, c1)])"
      by (auto simp: register_callback_def llist_search_def llist_entries_def
          llentry_create_def llist_append_def split: if_splits)
    with llist_search_loop_append_fresh [OF None, of c1] show ?thesis by simp
  next
    case Some2: (Some i)
    from llist_search_loop_Some [OF Some2] have i: "i < length l" "fst (l ! i) = name" by simp_all
    from Some Some2 assms have "list1 = Some (l[i := (name, c1)])"
      by (auto simp: register_callback_def llist_search_def llist_entries_def i)
    with llist_search_loop_update [OF Some2, of c1] i show ?thesis by simp
  qed
qed

lemma register_callback_again:
  assumes "llist_search_loop l name = Some i"
  shows "register_callback list_mem entry_mem (Some l) name c2 = (0, Some (l[i := (name, c2)]))"
  using assms llist_search_loop_Some [OF assms]
  by (simp add: register_callback_def llist_search_def llist_entries_def)

lemma count_list_distinct: "distinct xs \<Longrightarrow> x \<in> set xs \<Longrightarrow> count_list xs x = 1"
  by (induction xs) auto

lemma count_list_distinct_keys:
  "distinct (map fst l) \<Longrightarrow> i < length l \<Longrightarrow> count_list (map fst l) (fst (l ! i)) = 1"
  by (rule count_list_distinct) auto

text \<open>
  Claim C3. For every registry that registrations can build, every name and callbacks
  \<open>c1\<close>, \<open>c2\<close>: when registering the name with \<open>c1\<close> succeeds, registering it again
  with \<open>c2\<close> succeeds whatever the state of memory, and leaves exactly one entry for the
  name, with callback \<open>c2\<close>, at the position \<open>i\<close> the entry had after the first
  registration; the keys of the list, in order, and so the number of entries, are those
  after the first registration.
\<close>

theorem register_twice:
  "register_callback list_mem entry_mem (registrations None rs) name c1 = (0, list1) \<longrightarrow>
     (\<exists>l i. list1 = Some l \<and> i < length l \<and> l ! i = (name, c1) \<and>
        llist_search list1 name = Some i \<and>
        register_callback list_mem' entry_mem' list1 name c2 = (0, Some (l[i := (name, c2)])) \<and>
        llist_search (Some (l[i := (name, c2)])) name = Some i \<and>
        count_list (map fst (l[i := (name, c2)])) name = 1 \<and>
        map fst (l[i := (name, c2)]) = map fst l \<and>
        length (l[i := (name, c2)]) = length l)"
proof
  assume first: "register_callback list_mem entry_mem (registrations None rs) name c1 = (0, list1)"
  from register_callback_ok [OF first] obtain l i where
    l: "list1 = Some l" and i: "llist_search_loop l name = Some i" and li: "l ! i = (name, c1)"
    by blast
  from llist_search_loop_Some [OF i] have len: "i < length l" by simp
  have "distinct_keys (registrations None rs)"
    by (rule registrations_distinct) (simp add: distinct_keys_def llist_entries_def)
  from register_callback_distinct [OF this, of list_mem entry_mem name c1] first l
  have d: "distinct (map fst l)" by (simp add: distinct_keys_def llist_entries_def)
  have keys: "map fst (l[i := (name, c2)]) = map fst l"
    using len li by (simp add: map_update list_update_same_conv)
  have "count_list (map fst l) (fst (l ! i)) = 1"
    using d len by (rule count_list_distinct_keys)
  with keys li have one: "count_list (map fst (l[i := (name, c2)])) name = 1" by simp
  from l i len li one keys register_callback_again [OF i, of list_mem' entry_mem' c2]
    llist_search_loop_update [OF i, of c2]
  show "\<exists>l i. list1 = Some l \<and> i < length l \<and> l ! i = (name, c1) \<and>
        llist_search list1 name = Some i \<and>
        register_callback list_mem' entry_mem' list1 name c2 = (0, Some (l[i := (name, c2)])) \<and>
        llist_search (Some (l[i := (name, c2)])) name = Some i \<and>
        count_list (map fst (l[i := (name, c2)])) name = 1 \<and>
        map fst (l[i := (name, c2)]) = map fst l \<and>
        length (l[i := (name, c2)]) = length l"
    by (auto simp: llist_search_def llist_entries_def)
qed

theorem register_twice_witness:
  "register_callback True True
      (registrations None [(True, True, ''cpu'', 1 :: nat), (True, True, ''load'', 2),
         (True, True, ''df'', 3)]) ''load'' 7
     = (0, Some [(''cpu'', 1), (''load'', 7), (''df'', 3)]) \<and>
   register_callback False False (Some [(''cpu'', 1 :: nat), (''load'', 7), (''df'', 3)]) ''load'' 9
     = (0, Some [(''cpu'', 1), (''load'', 9), (''df'', 3)]) \<and>
   llist_search (Some [(''cpu'', 1 :: nat), (''load'', 7), (''df'', 3)]) ''load'' = Some 1 \<and>
   llist_search (Some [(''cpu'', 1 :: nat), (''load'', 9), (''df'', 3)]) ''load'' = Some 1"
  using register_twice [of True True
      "[(True, True, ''cpu'', 1 :: nat), (True, True, ''load'', 2), (True, True, ''df'', 3)]"
      "''load''" 7 "Some [(''cpu'', 1), (''load'', 7), (''df'', 3)]" False False 9]
  by (simp add: register_callback_def llist_create_def llentry_create_def llist_append_def
      llist_search_def llist_entries_def)

lemma plugin_dispatch_loop_eq:
  "plugin_dispatch_loop d vl es w =
     (foldl (\<lambda>w e. snd (snd e d vl w)) w es, map (\<lambda>e. (fst e, d, vl)) es)"
  by (induction es arbitrary: w) (simp_all split: prod.splits)

lemma registrations_fresh:
  "distinct (map fst (l @ regs)) \<Longrightarrow>
     registrations (Some l) (map (\<lambda>e. (True, True, fst e, snd e)) regs) = Some (l @ regs)"
proof (induction regs arbitrary: l)
  case Nil
  then show ?case by simp
next
  case (Cons e regs)
  obtain name callback where e: "e = (name, callback)" by (cases e)
  from Cons.prems have "name \<notin> fst ` set l" by (auto simp: e)
  then have "llist_search_loop l name = None" by (simp add: llist_search_loop_None)
  then have "register_callback True True (Some l) name callback = (0, Some (l @ [e]))"
    by (simp add: register_callback_def llist_search_def llist_entries_def llentry_create_def
        llist_append_def e)
  moreover from Cons.prems have "distinct (map fst ((l @ [e]) @ regs))" by simp
  from Cons.IH [OF this]
  have "registrations (Some (l @ [e])) (map (\<lambda>e. (True, True, fst e, snd e)) regs)
      = Some (l @ e # regs)" by simp
  ultimately show ?case by (simp add: e)
qed

lemma registrations_in_order:
  assumes "distinct (map fst regs)" and "regs \<noteq> []"
  shows "registrations None (map (\<lambda>e. (True, True, fst e, snd e)) regs) = Some regs"
proof -
  from assms(2) obtain e rest where regs: "regs = e # rest" by (cases regs) auto
  obtain name callback where e: "e = (name, callback)" by (cases e)
  have "register_callback True True None name callback = (0, Some [e])"
    by (simp add: register_callback_def llist_create_def llist_search_def llist_entries_def
        llentry_create_def llist_append_def e)
  moreover from assms(1) regs have "distinct (map fst ([e] @ rest))" by simp
  from registrations_fresh [OF this]
  have "registrations (Some [e]) (map (\<lambda>e. (True, True, fst e, snd e)) rest) = Some (e # rest)"
    by simp
  ultimately show ?thesis by (simp add: regs e)
qed

text \<open>
  Claim C2. When the write list holds at least one callback and a data set is registered
  under the name, \<open>plugin_dispatch_values\<close> calls the callback of every entry of the
  write list once, from head to tail, each with that data set and the given value list,
  and returns 0 whatever the callbacks return. The list order is the registration order:
  registering callbacks under distinct names, with memory at hand, builds the list of
  them in that order.
\<close>

theorem dispatch_calls_every_writer:
  "(list_write p = Some wl \<and> wl \<noteq> [] \<and> llist_search (list_data_set p) name = Some le \<longrightarrow>
      fst (llist_entries (list_data_set p) ! le) = name \<and>
      plugin_dispatch_values p name vl w =
        (0, foldl (\<lambda>w e. snd (snd e (snd (llist_entries (list_data_set p) ! le)) vl w)) w wl,
         map (\<lambda>e. (fst e, snd (llist_entries (list_data_set p) ! le), vl)) wl)) \<and>
   (distinct (map fst regs) \<and> regs \<noteq> [] \<longrightarrow>
      registrations None (map (\<lambda>e. (True, True, fst e, snd e)) regs) = Some regs)"
proof -
  have "fst (llist_entries (list_data_set p) ! le) = name"
    if "llist_search (list_data_set p) name = Some le"
    using llist_search_loop_Some [of "llist_entries (list_data_set p)" name le] that
    by (simp add: llist_search_def)
  moreover have "plugin_dispatch_values p name vl w =
        (0, foldl (\<lambda>w e. snd (snd e (snd (llist_entries (list_data_set p) ! le)) vl w)) w wl,
         map (\<lambda>e. (fst e, snd (llist_entries (list_data_set p) ! le), vl)) wl)"
    if "list_write p = Some wl" "llist_search (list_data_set p) name = Some le"
    using that
    by (simp add: plugin_dispatch_values_def plugin_dispatch_loop_eq llist_head_def Let_def)
  ultimately show ?thesis
    using registrations_in_order [of regs] by blast
qed

text \<open>
  Claim C5. When the write list holds at least one callback and no data set is
  registered under the name, \<open>plugin_dispatch_values\<close> returns -1 (the spec's
  UnknownType), calls no write callback and leaves the state as it was.
\<close>

theorem dispatch_unknown_type:
  "list_write p = Some wl \<and> wl \<noteq> [] \<and> name \<notin> fst ` set (llist_entries (list_data_set p)) \<longrightarrow>
     llist_search (list_data_set p) name = None \<and>
     plugin_dispatch_values p name vl w = (- 1, w, [])"
proof -
  have "llist_search (list_data_set p) name = None"
    if "name \<notin> fst ` set (llist_entries (list_data_set p))"
    using that by (simp add: llist_search_def llist_search_loop_None)
  then show ?thesis by (simp add: plugin_dispatch_values_def)
qed

text \<open>While \<open>list_write\<close> is \<open>NULL\<close> the dispatch fails (lines 296 and 297).\<close>

lemma dispatch_without_write_list:
  "list_write p = None \<Longrightarrow> plugin_dispatch_values p name vl w = (- 1, w, [])"
  by (simp add: plugin_dispatch_values_def)

lemma plugin_all_loop_fst_Cons:
  "fst (plugin_all_loop (le # next) w) = fst (plugin_all_loop next (snd (snd le w)))"
  by (simp split: prod.splits)

lemma plugin_read_loop_prefix:
  "plugin_read_loop loop l w = (w', called) \<Longrightarrow>
     \<exists>k\<le>length l. called = map fst (take k l) \<and> w' = fst (plugin_all_loop (take k l) w) \<and>
       (\<forall>j<k. loop (fst (plugin_all_loop (take j l) w)) = 0) \<and>
       (k < length l \<longrightarrow> loop w' \<noteq> 0)"
proof (induction l arbitrary: w called)
  case Nil
  then show ?case by simp
next
  case (Cons le l)
  show ?case
  proof (cases "loop w = 0")
    case False
    with Cons.prems have "called = []" "w' = w" by simp_all
    with False show ?thesis by (intro exI [of _ 0]) simp
  next
    case True
    obtain status w1 where cb: "snd le w = (status, w1)" by (cases "snd le w")
    with True Cons.prems obtain called1 where
      rest: "plugin_read_loop loop l w1 = (w', called1)" and called: "called = fst le # called1"
      by (auto split: prod.splits)
    from Cons.IH [OF rest] obtain k where k: "k \<le> length l" "called1 = map fst (take k l)"
      "w' = fst (plugin_all_loop (take k l) w1)"
      "\<forall>j<k. loop (fst (plugin_all_loop (take j l) w1)) = 0"
      "k < length l \<longrightarrow> loop w' \<noteq> 0"
      by blast
    have "loop (fst (plugin_all_loop (take j (le # l)) w)) = 0" if "j < Suc k" for j
    proof (cases j)
      case 0
      with True show ?thesis by simp
    next
      case (Suc j')
      with that k(4) cb show ?thesis by (simp add: plugin_all_loop_fst_Cons del: plugin_all_loop.simps)
    qed
    with k cb called show ?thesis
      by (intro exI [of _ "Suc k"])
        (simp add: plugin_all_loop_fst_Cons del: plugin_all_loop.simps)
  qed
qed

text \<open>
  Claim C8. A read sweep that finds the flag set at its start calls nothing. In general
  the sweep calls the callbacks of the first \<open>k\<close> entries, in order, for some \<open>k\<close>: the
  flag was clear before each of these calls, and when \<open>k\<close> is less than the length of the
  list the flag was set when the sweep looked at it after the call number \<open>k\<close>, so that
  no later callback is called.
\<close>

theorem read_sweep_cancel:
  "(loop w \<noteq> 0 \<longrightarrow> plugin_read_all loop p w = (w, [])) \<and>
   (list_read p = Some l \<and> plugin_read_all loop p w = (w', called) \<longrightarrow>
      (\<exists>k\<le>length l. called = map fst (take k l) \<and> w' = fst (plugin_all_loop (take k l) w) \<and>
         (\<forall>j<k. loop (fst (plugin_all_loop (take j l) w)) = 0) \<and>
         (k < length l \<longrightarrow> loop w' \<noteq> 0)))"
proof -
  have "plugin_read_loop loop es w = (w, [])" if "loop w \<noteq> 0" for es
    using that by (cases es) simp_all
  then have "loop w \<noteq> 0 \<longrightarrow> plugin_read_all loop p w = (w, [])"
    by (simp add: plugin_read_all_def split: option.splits)
  moreover have "\<exists>k\<le>length l. called = map fst (take k l) \<and> w' = fst (plugin_all_loop (take k l) w) \<and>
         (\<forall>j<k. loop (fst (plugin_all_loop (take j l) w)) = 0) \<and>
         (k < length l \<longrightarrow> loop w' \<noteq> 0)"
    if "list_read p = Some l" "plugin_read_all loop p w = (w', called)"
    using that plugin_read_loop_prefix [of loop l w w' called]
    by (simp add: plugin_read_all_def llist_head_def)
  ultimately show ?thesis by blast
qed

theorem dispatch_calls_every_writer_witness:
  "plugin_dispatch_values
      \<lparr>list_init = None, list_read = None,
       list_write = Some [(''csv'', \<lambda>d vl w. (- 1, w @ [''csv''])),
                          (''network'', \<lambda>d vl w. (0, w @ [''network'']))],
       list_shutdown = None,
       list_data_set = Some [(''load'', \<lparr>type = ''load'', ds = [''shortterm'']\<rparr>),
                             (''cpu'', \<lparr>type = ''cpu'', ds = [''value'']\<rparr>)],
       plugindir = None\<rparr> ''cpu'' [1 :: int] []
     = (0, [''csv'', ''network''],
        [(''csv'', \<lparr>type = ''cpu'', ds = [''value'']\<rparr>, [1]),
         (''network'', \<lparr>type = ''cpu'', ds = [''value'']\<rparr>, [1])]) \<and>
   registrations None [(True, True, ''csv'', 1 :: nat), (True, True, ''network'', 2)]
     = Some [(''csv'', 1), (''network'', 2)]"
  using dispatch_calls_every_writer [where
      p = "\<lparr>list_init = None, list_read = None,
       list_write = Some [(''csv'', \<lambda>d vl w. (- 1, w @ [''csv''])),
                          (''network'', \<lambda>d vl w. (0, w @ [''network'']))],
       list_shutdown = None,
       list_data_set = Some [(''load'', \<lparr>type = ''load'', ds = [''shortterm'']\<rparr>),
                             (''cpu'', \<lparr>type = ''cpu'', ds = [''value'']\<rparr>)],
       plugindir = None\<rparr>"
      and name = "''cpu''" and le = 1 and vl = "[1 :: int]" and w = "[]"
      and wl = "[(''csv'', \<lambda>d vl w. (- 1, w @ [''csv''])),
                 (''network'', \<lambda>d vl w. (0, w @ [''network'']))]"
      and regs = "[(''csv'', 1 :: nat), (''network'', 2)]"]
  by (simp add: llist_search_def llist_entries_def)

theorem dispatch_unknown_type_witness:
  "plugin_dispatch_values
      \<lparr>list_init = None, list_read = None,
       list_write = Some [(''csv'', \<lambda>d vl w. (0, w @ [''csv'']))],
       list_shutdown = None,
       list_data_set = Some [(''load'', \<lparr>type = ''load'', ds = [''shortterm'']\<rparr>)],
       plugindir = None\<rparr> ''cpu'' [1 :: int] []
     = (- 1, [], [])"
  using dispatch_unknown_type [where
      p = "\<lparr>list_init = None, list_read = None,
       list_write = Some [(''csv'', \<lambda>d vl w. (0, w @ [''csv'']))],
       list_shutdown = None,
       list_data_set = Some [(''load'', \<lparr>type = ''load'', ds = [''shortterm'']\<rparr>)],
       plugindir = None\<rparr>"
      and name = "''cpu''" and vl = "[1 :: int]" and w = "[]"
      and wl = "[(''csv'', \<lambda>d vl w. (0, w @ [''csv'']))]"]
  by (simp add: llist_entries_def)

theorem read_sweep_cancel_witness:
  "plugin_read_all fst
      \<lparr>list_init = None,
       list_read = Some [(''cpu'', \<lambda>w. (0, (fst w, snd w @ [''cpu'']))),
                         (''load'', \<lambda>w. (0, (1, snd w @ [''load'']))),
                         (''df'', \<lambda>w. (0, (fst w, snd w @ [''df''])))],
       list_write = None, list_shutdown = None, list_data_set = None, plugindir = None\<rparr>
      (1 :: int, [])
     = ((1, []), []) \<and>
   plugin_read_all fst
      \<lparr>list_init = None,
       list_read = Some [(''cpu'', \<lambda>w. (0, (fst w, snd w @ [''cpu'']))),
                         (''load'', \<lambda>w. (0, (1, snd w @ [''load'']))),
                         (''df'', \<lambda>w. (0, (fst w, snd w @ [''df''])))],
       list_write = None, list_shutdown = None, list_data_set = None, plugindir = None\<rparr>
      (0 :: int, [])
     = ((1, [''cpu'', ''load'']), [''cpu'', ''load''])"
  using read_sweep_cancel [where loop = fst and w = "(1 :: int, [])" and
      p = "\<lparr>list_init = None,
       list_read = Some [(''cpu'', \<lambda>w. (0, (fst w, snd w @ [''cpu'']))),
                         (''load'', \<lambda>w. (0, (1, snd w @ [''load'']))),
                         (''df'', \<lambda>w. (0, (fst w, snd w @ [''df''])))],
       list_write = None, list_shutdown = None, list_data_set = None, plugindir = None\<rparr>"]
    read_sweep_cancel [where loop = fst and w = "(0 :: int, [])" and
      w' = "(1, [''cpu'', ''load''])" and called = "[''cpu'', ''load'']" and
      l = "[(''cpu'', \<lambda>w. (0, (fst w, snd w @ [''cpu'']))),
            (''load'', \<lambda>w. (0, (1, snd w @ [''load'']))),
            (''df'', \<lambda>w. (0, (fst w, snd w @ [''df''])))]" and
      p = "\<lparr>list_init = None,
       list_read = Some [(''cpu'', \<lambda>w. (0, (fst w, snd w @ [''cpu'']))),
                         (''load'', \<lambda>w. (0, (1, snd w @ [''load'']))),
                         (''df'', \<lambda>w. (0, (fst w, snd w @ [''df''])))],
       list_write = None, list_shutdown = None, list_data_set = None, plugindir = None\<rparr>"]
  by (simp add: plugin_read_all_def llist_head_def)

text \<open>
  Claim C4 fails on the code. The one registration of a write callback fails in
  \<open>llentry_create\<close>, after \<open>llist_create\<close> has made the list (lines 57 to 66):
  \<open>register_callback\<close> returns -1 and leaves \<open>list_write\<close> empty but not \<open>NULL\<close>. With a
  data set registered under the name, \<open>plugin_dispatch_values\<close> then returns 0, having
  called nothing, although no write callback has ever been registered.
\<close>

theorem dispatch_after_failed_registration:
  "fst (plugin_register_write True False
          (plugin_start :: (string, int list, string list) plugin) ''csv''
          (\<lambda>d vl w. (0, w @ [''csv''])))
     = - 1 \<and>
   list_write (snd (plugin_register_write True False
          (plugin_start :: (string, int list, string list) plugin) ''csv''
          (\<lambda>d vl w. (0, w @ [''csv''])))) = Some [] \<and>
   plugin_dispatch_values
      (snd (plugin_register_data_set True True
         (snd (plugin_register_write True False
            (plugin_start :: (string, int list, string list) plugin) ''csv''
            (\<lambda>d vl w. (0, w @ [''csv'']))))
         \<lparr>type = ''cpu'', ds = [''value'']\<rparr>))
      ''cpu'' [1] []
     = (0, [], [])"
  by (simp add: plugin_register_write_def plugin_register_data_set_def plugin_start_def
      register_callback_def llist_create_def llentry_create_def llist_append_def
      llist_search_def llist_entries_def plugin_dispatch_values_def llist_head_def)


section \<open>Properties of the module loader\<close>

lemma cpu_not_cpufreq: "\<not> is_candidate ''cpu'' ''cpufreq.so''"
  by (simp add: is_candidate_def tolower_def)

lemma strncasecmp_eq_0:
  "strncasecmp s1 s2 n = 0 \<longleftrightarrow> map tolower (take n s1) = map tolower (take n s2)"
  by (induction s1 s2 n rule: strncasecmp.induct) auto

lemma strncasecmp_candidate:
  "strncasecmp d_name (t @ ''.so'') (length (t @ ''.so'')) = 0 \<longleftrightarrow> is_candidate t d_name"
  unfolding strncasecmp_eq_0 is_candidate_def by simp

lemma plugin_load_file_status:
  "fst (plugin_load_file host file w) = 0 \<longleftrightarrow>
     (case lt_dlopen host file of
        None \<Rightarrow> False
      | Some dlh \<Rightarrow> lt_dlsym host dlh ''module_register'' \<noteq> None)"
  by (auto simp: plugin_load_file_def split: option.splits)

lemma plugin_load_file_failed:
  "fst (plugin_load_file host file w) \<noteq> 0 \<Longrightarrow> snd (plugin_load_file host file w) = w"
  by (auto simp: plugin_load_file_def split: option.splits)

lemma plugin_load_loop_no_match:
  "strncasecmp d typename (length typename) \<noteq> 0 \<Longrightarrow>
     plugin_load_loop host dir typename (d # des) w = plugin_load_loop host dir typename des w"
  by simp

lemma plugin_load_loop_too_long:
  "BUFSIZE \<le> length dir + 1 + length d \<Longrightarrow>
     plugin_load_loop host dir typename (d # des) w = plugin_load_loop host dir typename des w"
  by simp

lemma plugin_load_loop_not_regular:
  "lstat host (dir @ ''/'' @ d) \<noteq> Some True \<Longrightarrow>
     plugin_load_loop host dir typename (d # des) w = plugin_load_loop host dir typename des w"
  by (cases "lstat host (dir @ ''/'' @ d)") (simp_all add: Let_def)

lemma plugin_load_loop_file:
  "strncasecmp d typename (length typename) = 0 \<Longrightarrow> \<not> BUFSIZE \<le> length dir + 1 + length d \<Longrightarrow>
   lstat host (dir @ ''/'' @ d) = Some True \<Longrightarrow>
     plugin_load_loop host dir typename (d # des) w
      = (case plugin_load_file host (dir @ ''/'' @ d) w of
           (status, w') \<Rightarrow>
             if status = 0 then (0, w', [dir @ ''/'' @ d])
             else
               (case plugin_load_loop host dir typename des w' of
                  (ret, w'', tried) \<Rightarrow> (ret, w'', (dir @ ''/'' @ d) # tried)))"
  by (simp add: Let_def split: prod.splits)

lemma plugin_load_loop_skip:
  assumes "\<not> is_tried host dir t d"
  shows "plugin_load_loop host dir (t @ ''.so'') (d # des) w
    = plugin_load_loop host dir (t @ ''.so'') des w"
proof -
  from assms consider "strncasecmp d (t @ ''.so'') (length (t @ ''.so'')) \<noteq> 0"
    | "BUFSIZE \<le> length dir + 1 + length d" | "lstat host (dir @ ''/'' @ d) \<noteq> Some True"
    unfolding is_tried_def strncasecmp_candidate by fastforce
  then show ?thesis
  proof cases
    case 1
    then show ?thesis by (rule plugin_load_loop_no_match)
  next
    case 2
    then show ?thesis by (rule plugin_load_loop_too_long)
  next
    case 3
    then show ?thesis by (rule plugin_load_loop_not_regular)
  qed
qed

lemma plugin_load_loop_try:
  assumes "is_tried host dir t d"
  shows "plugin_load_loop host dir (t @ ''.so'') (d # des) w
    = (case plugin_load_file host (dir @ ''/'' @ d) w of
         (status, w') \<Rightarrow>
           if status = 0 then (0, w', [dir @ ''/'' @ d])
           else
             (case plugin_load_loop host dir (t @ ''.so'') des w' of
                (ret, w'', tried) \<Rightarrow> (ret, w'', (dir @ ''/'' @ d) # tried)))"
proof -
  from assms have "strncasecmp d (t @ ''.so'') (length (t @ ''.so'')) = 0"
    "\<not> BUFSIZE \<le> length dir + 1 + length d" "lstat host (dir @ ''/'' @ d) = Some True"
    unfolding is_tried_def strncasecmp_candidate by auto
  then show ?thesis by (rule plugin_load_loop_file)
qed

lemma activates_iff:
  "activates host dir t d \<longleftrightarrow>
     is_tried host dir t d \<and> fst (plugin_load_file host (dir @ ''/'' @ d) w) = 0"
  by (simp add: activates_def plugin_load_file_status)

lemma plugin_load_loop_eq:
  "plugin_load_loop host dir (t @ ''.so'') des w =
     (case find (activates host dir t) des of
        None \<Rightarrow> (1, w, map (\<lambda>d. dir @ ''/'' @ d) (filter (is_tried host dir t) des))
      | Some d \<Rightarrow>
          (0, snd (plugin_load_file host (dir @ ''/'' @ d) w),
           map (\<lambda>d. dir @ ''/'' @ d)
             (filter (is_tried host dir t) (takeWhile (\<lambda>d. \<not> activates host dir t d) des))
           @ [dir @ ''/'' @ d]))"
proof (induction des)
  case Nil
  then show ?case by simp
next
  case (Cons d des)
  show ?case
  proof (cases "is_tried host dir t d")
    case False
    then have "\<not> activates host dir t d" by (simp add: activates_def)
    with False Cons.IH show ?thesis
      by (simp add: plugin_load_loop_skip split: option.splits del: plugin_load_loop.simps)
  next
    case True
    obtain status w' where lf: "plugin_load_file host (dir @ ''/'' @ d) w = (status, w')"
      by (cases "plugin_load_file host (dir @ ''/'' @ d) w")
    show ?thesis
    proof (cases "status = 0")
      case ok: True
      with lf True have "activates host dir t d"
        using activates_iff [of host dir t d w] by simp
      with ok lf show ?thesis
        by (simp add: plugin_load_loop_try [OF True] del: plugin_load_loop.simps)
    next
      case failed: False
      with lf have "\<not> activates host dir t d" "w' = w"
        using activates_iff [of host dir t d w]
          plugin_load_file_failed [of host "dir @ ''/'' @ d" w]
        by simp_all
      with failed lf True Cons.IH show ?thesis
        by (simp add: plugin_load_loop_try [OF True] split: option.splits
            del: plugin_load_loop.simps)
    qed
  qed
qed

lemma find_activates_None:
  "find (activates host dir t) des = None \<longleftrightarrow> \<not> (\<exists>d\<in>set des. activates host dir t d)"
  by (auto simp: find_None_iff)

text \<open>
  Claim C9. The loader's test \<open>strncasecmp (d_name, typename, typename_len)\<close> passes
  exactly for the candidates, the entries whose name begins, case ignored, with the type
  followed by \<open>.so\<close>; \<open>cpufreq.so\<close> is no candidate for \<open>cpu\<close>. When the type fits the
  buffer and the directory opens, the loader tries the candidates in the order of
  enumeration up to the first that activates, runs the \<open>module_register\<close> of that one
  only and returns 0; it tries nothing after it. It returns a non-zero status exactly when
  no candidate of the directory activates, and whenever it fails no module has been
  registered.
\<close>

theorem plugin_load_first_candidate:
  "(strncasecmp d_name (t @ ''.so'') (length (t @ ''.so'')) = 0 \<longleftrightarrow> is_candidate t d_name) \<and>
   \<not> is_candidate ''cpu'' ''cpufreq.so'' \<and>
   (length t + 3 < BUFSIZE \<and> opendir host (plugin_get_dir PLUGINDIR p) = Some des \<longrightarrow>
      plugin_load host PLUGINDIR p t w =
        (case find (activates host (plugin_get_dir PLUGINDIR p) t) des of
           None \<Rightarrow>
             (1, w, map (\<lambda>d. plugin_get_dir PLUGINDIR p @ ''/'' @ d)
                      (filter (is_tried host (plugin_get_dir PLUGINDIR p) t) des))
         | Some d \<Rightarrow>
             (0, snd (plugin_load_file host (plugin_get_dir PLUGINDIR p @ ''/'' @ d) w),
              map (\<lambda>d. plugin_get_dir PLUGINDIR p @ ''/'' @ d)
                (filter (is_tried host (plugin_get_dir PLUGINDIR p) t)
                   (takeWhile (\<lambda>d. \<not> activates host (plugin_get_dir PLUGINDIR p) t d) des))
              @ [plugin_get_dir PLUGINDIR p @ ''/'' @ d])) \<and>
      (fst (plugin_load host PLUGINDIR p t w) \<noteq> 0 \<longleftrightarrow>
         \<not> (\<exists>d\<in>set des. activates host (plugin_get_dir PLUGINDIR p) t d))) \<and>
   (fst (plugin_load host PLUGINDIR p t w) \<noteq> 0 \<longrightarrow>
      fst (snd (plugin_load host PLUGINDIR p t w)) = w)"
proof -
  let ?dir = "plugin_get_dir PLUGINDIR p"
  let ?rhs = "\<lambda>des. case find (activates host ?dir t) des of
           None \<Rightarrow> (1 :: int, w, map (\<lambda>d. ?dir @ ''/'' @ d) (filter (is_tried host ?dir t) des))
         | Some d \<Rightarrow>
             (0, snd (plugin_load_file host (?dir @ ''/'' @ d) w),
              map (\<lambda>d. ?dir @ ''/'' @ d)
                (filter (is_tried host ?dir t) (takeWhile (\<lambda>d. \<not> activates host ?dir t d) des))
              @ [?dir @ ''/'' @ d])"
  have opened: "plugin_load host PLUGINDIR p t w = ?rhs des"
    if "length t + 3 < BUFSIZE" "opendir host ?dir = Some des" for des
    using that plugin_load_loop_eq [of host ?dir t des w]
    by (simp add: plugin_load_def Let_def)
  have status: "fst (plugin_load host PLUGINDIR p t w) \<noteq> 0 \<longleftrightarrow>
      \<not> (\<exists>d\<in>set des. activates host ?dir t d)"
    if "length t + 3 < BUFSIZE" "opendir host ?dir = Some des"
    unfolding opened [OF that] find_activates_None [symmetric]
    by (simp split: option.splits)
  have unchanged: "fst (snd (plugin_load host PLUGINDIR p t w)) = w"
    if failed: "fst (plugin_load host PLUGINDIR p t w) \<noteq> 0"
  proof (cases "length t + 3 < BUFSIZE")
    case False
    then show ?thesis by (simp add: plugin_load_def Let_def)
  next
    case True
    show ?thesis
    proof (cases "opendir host ?dir")
      case None
      then show ?thesis by (simp add: plugin_load_def Let_def)
    next
      case (Some des')
      from failed show ?thesis
        unfolding opened [OF True Some] by (simp split: option.splits)
    qed
  qed
  from opened status unchanged strncasecmp_candidate [of d_name t] cpu_not_cpufreq
  show ?thesis by blast
qed

theorem plugin_load_first_candidate_witness:
  "plugin_load
      \<lparr>opendir = (\<lambda>dir. if dir = ''/lib'' then
                     Some [''cpufreq.so'', ''CPU.so.old'', ''cpu.txt'', ''cpu.so'', ''cpu.so.0'']
                   else None),
       lstat = (\<lambda>file. if file = ''/lib/CPU.so.old'' then Some True else
                  if file = ''/lib/cpu.so.0'' then Some True else
                  if file = ''/lib/cpu.so'' then Some True else None),
       lt_dlopen = (\<lambda>file. if file = ''/lib/cpu.so'' then Some (1 :: nat) else
                  if file = ''/lib/cpu.so.0'' then Some 2 else None),
       lt_dlsym = (\<lambda>dlh name. if name = ''module_register'' then Some (\<lambda>w. w @ [dlh]) else None)\<rparr>
      ''/lib'' (plugin_start :: (string, int list, nat list) plugin) ''cpu'' []
     = (0, [1], [''/lib/CPU.so.old'', ''/lib/cpu.so'']) \<and>
   plugin_load
      \<lparr>opendir = (\<lambda>dir. if dir = ''/lib'' then
                     Some [''cpufreq.so'', ''CPU.so.old'', ''cpu.txt'', ''cpu.so'', ''cpu.so.0'']
                   else None),
       lstat = (\<lambda>file. if file = ''/lib/CPU.so.old'' then Some True else
                  if file = ''/lib/cpu.so.0'' then Some True else
                  if file = ''/lib/cpu.so'' then Some True else None),
       lt_dlopen = (\<lambda>file. if file = ''/lib/cpu.so'' then Some (1 :: nat) else
                  if file = ''/lib/cpu.so.0'' then Some 2 else None),
       lt_dlsym = (\<lambda>dlh name. if name = ''module_register'' then Some (\<lambda>w. w @ [dlh]) else None)\<rparr>
      ''/lib'' (plugin_start :: (string, int list, nat list) plugin) ''cpufreq'' []
     = (1, [], [])"
  using plugin_load_first_candidate [where d_name = "''cpufreq.so''" and t = "''cpufreq''"
      and PLUGINDIR = "''/lib''" and w = "[]"
      and p = "plugin_start :: (string, int list, nat list) plugin"
      and des = "[''cpufreq.so'', ''CPU.so.old'', ''cpu.txt'', ''cpu.so'', ''cpu.so.0'']"
      and host = "\<lparr>opendir = (\<lambda>dir. if dir = ''/lib'' then
                     Some [''cpufreq.so'', ''CPU.so.old'', ''cpu.txt'', ''cpu.so'', ''cpu.so.0'']
                   else None),
       lstat = (\<lambda>file. if file = ''/lib/CPU.so.old'' then Some True else
                  if file = ''/lib/cpu.so.0'' then Some True else
                  if file = ''/lib/cpu.so'' then Some True else None),
       lt_dlopen = (\<lambda>file. if file = ''/lib/cpu.so'' then Some (1 :: nat) else
                  if file = ''/lib/cpu.so.0'' then Some 2 else None),
       lt_dlsym = (\<lambda>dlh name. if name = ''module_register'' then Some (\<lambda>w. w @ [dlh]) else None)\<rparr>"]
    plugin_load_first_candidate [where d_name = "''CPU.so.old''" and t = "''cpu''" and PLUGINDIR = "''/lib''" and w = "[]"
      and p = "plugin_start :: (string, int list, nat list) plugin"
      and des = "[''cpufreq.so'', ''CPU.so.old'', ''cpu.txt'', ''cpu.so'', ''cpu.so.0'']"
      and host = "\<lparr>opendir = (\<lambda>dir. if dir = ''/lib'' then
                     Some [''cpufreq.so'', ''CPU.so.old'', ''cpu.txt'', ''cpu.so'', ''cpu.so.0'']
                   else None),
       lstat = (\<lambda>file. if file = ''/lib/CPU.so.old'' then Some True else
                  if file = ''/lib/cpu.so.0'' then Some True else
                  if file = ''/lib/cpu.so'' then Some True else None),
       lt_dlopen = (\<lambda>file. if file = ''/lib/cpu.so'' then Some (1 :: nat) else
                  if file = ''/lib/cpu.so.0'' then Some 2 else None),
       lt_dlsym = (\<lambda>dlh name. if name = ''module_register'' then Some (\<lambda>w. w @ [dlh]) else None)\<rparr>"]
  by (simp add: plugin_get_dir_def plugin_start_def BUFSIZE_def activates_def is_tried_def
      is_candidate_def tolower_def plugin_load_file_def char_of_eq_iff)

section \<open>Properties of the complaint limiter\<close>

lemma suppressed_calls:
  "list_all is_complain cs \<Longrightarrow> int (length cs) \<le> delay c \<Longrightarrow>
     calls step cs c = Inr (c\<lparr>delay := delay c - int (length cs)\<rparr>, replicate (length cs) None)"
proof (induction cs arbitrary: c)
  case Nil
  then show ?case by simp
next
  case (Cons a cs)
  from Cons.prems obtain level m where a: "a = Complain level m"
    by (cases a) auto
  from Cons.prems have pos: "0 < delay c" by simp
  then have pc: "plugin_complain step level c m = Inr (c\<lparr>delay := delay c - 1\<rparr>, None)"
    by (simp add: plugin_complain_def)
  from Cons.prems have "list_all is_complain cs"
    and "int (length cs) \<le> delay (c\<lparr>delay := delay c - 1\<rparr>)"
    by simp_all
  from Cons.IH [OF this] show ?case
    using pc a by (simp add: algebra_simps)
qed

lemma relief_once_Cons:
  "relief_once (e # es) = (relief_once es \<and> \<not> ((\<exists>a. e = Relieved a) \<and> starts_with_relief es))"
  by (cases e; cases es rule: starts_with_relief.cases) auto

lemma calls_relief_once_aux:
  "calls step cs c = Inr (c', outs) \<Longrightarrow>
     relief_once (emitted outs) \<and> (interval c = 0 \<longrightarrow> \<not> starts_with_relief (emitted outs))"
proof (induction cs arbitrary: c c' outs)
  case Nil
  then show ?case by simp
next
  case (Cons a cs)
  show ?case
  proof (cases a)
    case (Complain level m)
    with Cons.prems obtain c1 out outs1 where
      pc: "plugin_complain step level c m = Inr (c1, out)" and
      rest: "calls step cs c1 = Inr (c', outs1)" and
      outs: "outs = map_option Complained out # outs1"
      by (auto split: sum.splits prod.splits)
    from Cons.IH [OF rest] have
      ih: "relief_once (emitted outs1)"
        "interval c1 = 0 \<longrightarrow> \<not> starts_with_relief (emitted outs1)"
      by simp_all
    show ?thesis
    proof (cases out)
      case None
      with pc have "interval c1 = interval c"
        by (auto simp: plugin_complain_def Let_def split: if_splits)
      with ih None outs show ?thesis by simp
    next
      case (Some msg)
      with ih outs show ?thesis by (simp add: relief_once_Cons)
    qed
  next
    case (Relief level m)
    with Cons.prems obtain c1 out outs1 where
      pr: "plugin_relief level c m = (c1, out)" and
      rest: "calls step cs c1 = Inr (c', outs1)" and
      outs: "outs = map_option Relieved out # outs1"
      by (auto split: sum.splits prod.splits)
    from Cons.IH [OF rest] have
      ih: "relief_once (emitted outs1)"
        "interval c1 = 0 \<longrightarrow> \<not> starts_with_relief (emitted outs1)"
      by simp_all
    show ?thesis
    proof (cases "interval c = 0")
      case True
      with pr have "c1 = c" "out = None" by (auto simp: plugin_relief_def)
      with ih outs True show ?thesis by simp
    next
      case False
      with pr have "interval c1 = 0" "out \<noteq> None" by (auto simp: plugin_relief_def)
      with ih outs False show ?thesis by (auto simp: relief_once_Cons)
    qed
  qed
qed

text \<open>
  Claim C7. For every complaint state: a relief call with \<open>interval = 0\<close> emits nothing
  and changes nothing; a relief call with \<open>interval \<noteq> 0\<close> resets \<open>interval\<close> to 0 (and
  nothing else) and emits exactly one message; a relief call right after a relief call
  emits nothing; and in every run of complain and relief calls from any state, no relief
  message follows another relief message without a complaint message in between, and a
  run from a state with \<open>interval = 0\<close> does not begin its output with a relief message:
  at most one relief message per complaint episode.
\<close>

theorem relief_at_most_once:
  "(interval c = 0 \<longrightarrow> plugin_relief level c m = (c, None)) \<and>
   (interval c \<noteq> 0 \<longrightarrow>
      plugin_relief level c m = (c\<lparr>interval := 0\<rparr>, Some (level, vsnprintf512 m))) \<and>
   snd (plugin_relief level' (fst (plugin_relief level c m)) m') = None \<and>
   (calls step cs c = Inr (c', outs) \<longrightarrow>
      relief_once (emitted outs) \<and>
      (interval c = 0 \<longrightarrow> \<not> starts_with_relief (emitted outs)))"
proof -
  have "calls step cs c = Inr (c', outs) \<longrightarrow>
      relief_once (emitted outs) \<and>
      (interval c = 0 \<longrightarrow> \<not> starts_with_relief (emitted outs))"
    using calls_relief_once_aux [of step cs c c' outs] by blast
  then show ?thesis by (simp add: plugin_relief_def)
qed

theorem relief_at_most_once_witness:
  "plugin_relief 6 complain_zero ''fine'' = (complain_zero, None) \<and>
   plugin_relief 6 \<lparr>interval = 20, delay = 2\<rparr> ''fine''
     = (\<lparr>interval = 0, delay = 2\<rparr>, Some (6, ''fine'')) \<and>
   calls 10 [Complain 3 ''bad'', Relief 6 ''fine'', Relief 6 ''fine''] complain_zero
     = Inr (\<lparr>interval = 0, delay = 1\<rparr>,
            [Some (Complained (3, ''bad'')), Some (Relieved (6, ''fine'')), None]) \<and>
   relief_once [Complained (3, ''bad''), Relieved (6, ''fine'')]"
  using relief_at_most_once [of complain_zero 6 "''fine''" 6 "''fine''" 10
      "[Complain 3 ''bad'', Relief 6 ''fine'', Relief 6 ''fine'']"
      "\<lparr>interval = 0, delay = 1\<rparr>"
      "[Some (Complained (3, ''bad'')), Some (Relieved (6, ''fine'')), None]"]
    relief_at_most_once [of "\<lparr>interval = 20, delay = 2\<rparr>" 6 "''fine''"]
  by (simp add: complain_zero_def plugin_complain_def plugin_relief_def vsnprintf512_def)

text \<open>
  Claim C10. An emitting relief call changes only \<open>interval\<close> and leaves \<open>delay\<close> as it
  is; so when relief is called while \<open>delay = d > 0\<close>, each of the next \<open>d\<close> complain calls
  (whatever the step, levels and messages) is still suppressed: it only counts \<open>delay\<close>
  down and emits nothing, with \<open>interval\<close> staying 0.
\<close>

theorem relief_leaves_delay:
  "(interval c \<noteq> 0 \<longrightarrow>
      plugin_relief level c m = (c\<lparr>interval := 0\<rparr>, Some (level, vsnprintf512 m)) \<and>
      delay (fst (plugin_relief level c m)) = delay c) \<and>
   (interval c \<noteq> 0 \<and> 0 < delay c \<and> list_all is_complain cs \<and> int (length cs) \<le> delay c \<longrightarrow>
      calls step cs (fst (plugin_relief level c m))
        = Inr (\<lparr>interval = 0, delay = delay c - int (length cs)\<rparr>,
               replicate (length cs) None))"
proof -
  have "calls step cs (c\<lparr>interval := 0\<rparr>)
        = Inr (\<lparr>interval = 0, delay = delay c - int (length cs)\<rparr>, replicate (length cs) None)"
    if "list_all is_complain cs" and "int (length cs) \<le> delay c"
    using suppressed_calls [of cs "c\<lparr>interval := 0\<rparr>" step] that by simp
  then show ?thesis by (simp add: plugin_relief_def)
qed

theorem relief_leaves_delay_witness:
  "plugin_relief 6 \<lparr>interval = 40, delay = 3\<rparr> ''fine''
     = (\<lparr>interval = 0, delay = 3\<rparr>, Some (6, ''fine'')) \<and>
   calls 10 [Complain 3 ''a'', Complain 3 ''b'', Complain 3 ''c'']
       (fst (plugin_relief 6 \<lparr>interval = 40, delay = 3\<rparr> ''fine''))
     = Inr (\<lparr>interval = 0, delay = 0\<rparr>, [None, None, None])"
  using relief_leaves_delay [of "\<lparr>interval = 40, delay = 3\<rparr>" 6 "''fine''"
      "[Complain 3 ''a'', Complain 3 ''b'', Complain 3 ''c'']" 10]
  by (simp add: plugin_relief_def vsnprintf512_def)


lemma calls_append:
  "calls step (xs @ ys) c =
     (case calls step xs c of
        Inl a \<Rightarrow> Inl a
      | Inr (c', o1) \<Rightarrow>
          (case calls step ys c' of
             Inl a \<Rightarrow> Inl a
           | Inr (c'', o2) \<Rightarrow> Inr (c'', o1 @ o2)))"
proof (induction xs arbitrary: c)
  case Nil
  then show ?case by (simp split: sum.splits)
next
  case (Cons a xs)
  then show ?case by (cases a) (simp_all split: sum.splits prod.splits)
qed

lemma complain_first:
  "0 < S \<Longrightarrow> S \<le> 86400 \<Longrightarrow>
     plugin_complain S level complain_zero m
       = Inr (\<lparr>interval = S, delay = 1\<rparr>, Some (level, vsnprintf512 m))"
  by (simp add: plugin_complain_def complain_zero_def)

lemma complain_suppressed:
  "0 < delay c \<Longrightarrow> plugin_complain S level c m = Inr (c\<lparr>delay := delay c - 1\<rparr>, None)"
  by (simp add: plugin_complain_def)

lemma complain_doubles:
  "0 < S \<Longrightarrow> delay c = 0 \<Longrightarrow> S \<le> interval c \<Longrightarrow>
     plugin_complain S level c m
       = Inr (\<lparr>interval = min (2 * interval c) 86400,
                delay = min (2 * interval c) 86400 div S\<rparr>, Some (level, vsnprintf512 m))"
  by (cases c) (simp add: plugin_complain_def Let_def min_def mult.commute)

lemma backoff_schedule:
  "0 < S \<Longrightarrow> S * 2 ^ k \<le> 86400 \<Longrightarrow>
     calls S (replicate (2 ^ k + k) (Complain level m)) complain_zero
       = Inr (\<lparr>interval = S * 2 ^ k, delay = 2 ^ k\<rparr>, backoff_outs level m k)"
proof (induction k)
  case 0
  then show ?case by (simp add: complain_first)
next
  case (Suc k)
  let ?e = "Complain level m"
  from Suc.prems have small: "S * 2 ^ k \<le> 86400" and small2: "2 * (S * 2 ^ k) \<le> 86400"
    by simp_all
  have "replicate (2 ^ Suc k + Suc k) ?e = replicate ((2 ^ k + k) + (2 ^ k + 1)) ?e"
    by simp
  also have "\<dots> = replicate (2 ^ k + k) ?e @ replicate (2 ^ k + 1) ?e"
    by (rule replicate_add)
  also have "replicate (2 ^ k + 1) ?e = replicate (2 ^ k) ?e @ [?e]"
    by (simp add: replicate_append_same)
  finally have split: "replicate (2 ^ Suc k + Suc k) ?e
      = replicate (2 ^ k + k) ?e @ replicate (2 ^ k) ?e @ [?e]" .
  have quiet: "calls S (replicate (2 ^ k) ?e) \<lparr>interval = S * 2 ^ k, delay = 2 ^ k\<rparr>
      = Inr (\<lparr>interval = S * 2 ^ k, delay = 0\<rparr>, replicate (2 ^ k) None)"
    using suppressed_calls [of "replicate (2 ^ k) ?e" "\<lparr>interval = S * 2 ^ k, delay = 2 ^ k\<rparr>" S]
    by (simp add: list_all_length)
  have "S \<le> S * 2 ^ k" using \<open>0 < S\<close> by simp
  then have loud: "plugin_complain S level \<lparr>interval = S * 2 ^ k, delay = 0\<rparr> m
      = Inr (\<lparr>interval = S * 2 ^ Suc k, delay = 2 ^ Suc k\<rparr>, Some (level, vsnprintf512 m))"
    using complain_doubles [of S "\<lparr>interval = S * 2 ^ k, delay = 0\<rparr>" level m] \<open>0 < S\<close> small2
    by (simp add: mult.commute mult.left_commute)
  show ?case
    unfolding split calls_append
    using Suc.IH [OF Suc.prems(1) small] quiet loud by simp
qed

text \<open>
  Claim C1, as amended. From the zero state and for a step \<open>S\<close> with \<open>0 < S \<le> 86400\<close>,
  the first complain call emits and leaves \<open>interval = S\<close>, \<open>delay = 1\<close>; a call with
  \<open>delay > 0\<close> only decrements \<open>delay\<close> and emits nothing; a call with \<open>delay = 0\<close> and
  \<open>S \<le> interval \<le> 86400\<close> (every reachable state has \<open>interval \<le> 86400\<close>) doubles
  \<open>interval\<close> up to the ceiling 86400, sets \<open>delay = interval / S\<close> and emits. As long as \<open>S * 2 ^ k \<le> 86400\<close>, the emission
  number \<open>k\<close> is the call number \<open>2 ^ k + k - 1\<close> (cycles 0, 2, 5, 10, ...) and leaves
  \<open>interval = S * 2 ^ k\<close> (10, 20, 40, 80, ... for \<open>S = 10\<close>), every call in between
  being silent.
\<close>

theorem backoff_sequence:
  "(0 < S \<and> S \<le> 86400 \<longrightarrow>
      plugin_complain S level complain_zero m
        = Inr (\<lparr>interval = S, delay = 1\<rparr>, Some (level, vsnprintf512 m))) \<and>
   (0 < delay c \<longrightarrow>
      plugin_complain S level c m = Inr (c\<lparr>delay := delay c - 1\<rparr>, None)) \<and>
   (0 < S \<and> delay c = 0 \<and> S \<le> interval c \<and> interval c \<le> 86400 \<longrightarrow>
      plugin_complain S level c m
        = Inr (\<lparr>interval = min (2 * interval c) 86400,
                 delay = min (2 * interval c) 86400 div S\<rparr>, Some (level, vsnprintf512 m))) \<and>
   (0 < S \<and> S * 2 ^ k \<le> 86400 \<longrightarrow>
      calls S (replicate (2 ^ k + k) (Complain level m)) complain_zero
        = Inr (\<lparr>interval = S * 2 ^ k, delay = 2 ^ k\<rparr>, backoff_outs level m k))"
  using complain_first [of S level m] complain_suppressed [of c S level m]
    complain_doubles [of S c level m] backoff_schedule [of S k level m]
  by blast

theorem backoff_sequence_witness:
  "plugin_complain 10 3 complain_zero ''e'' = Inr (\<lparr>interval = 10, delay = 1\<rparr>, Some (3, ''e'')) \<and>
   plugin_complain 10 3 \<lparr>interval = 10, delay = 1\<rparr> ''e'' = Inr (\<lparr>interval = 10, delay = 0\<rparr>, None) \<and>
   plugin_complain 10 3 \<lparr>interval = 10, delay = 0\<rparr> ''e''
     = Inr (\<lparr>interval = 20, delay = 2\<rparr>, Some (3, ''e'')) \<and>
   calls 10 (replicate 11 (Complain 3 ''e'')) complain_zero
     = Inr (\<lparr>interval = 80, delay = 8\<rparr>,
         [Some (Complained (3, ''e'')), None,
          Some (Complained (3, ''e'')), None, None,
          Some (Complained (3, ''e'')), None, None, None, None,
          Some (Complained (3, ''e''))])"
proof -
  have outs: "backoff_outs 3 ''e'' 3 =
         [Some (Complained (3, ''e'')), None,
          Some (Complained (3, ''e'')), None, None,
          Some (Complained (3, ''e'')), None, None, None, None,
          Some (Complained (3, ''e''))]"
    by (simp add: eval_nat_numeral vsnprintf512_def)
  have "calls 10 (replicate 11 (Complain 3 ''e'')) complain_zero
      = Inr (\<lparr>interval = 80, delay = 8\<rparr>, backoff_outs 3 ''e'' 3)"
    using backoff_sequence [of 10 3 "''e''" "\<lparr>interval = 10, delay = 1\<rparr>" 3] by simp
  then show ?thesis
    using backoff_sequence [of 10 3 "''e''" "\<lparr>interval = 10, delay = 1\<rparr>" 0]
      backoff_sequence [of 10 3 "''e''" "\<lparr>interval = 10, delay = 0\<rparr>" 0]
    by (simp add: outs vsnprintf512_def)
qed

text \<open>
  Where the claim as first stated fails: with \<open>S = 10\<close> the state
  \<open>interval = 81920, delay = 0\<close> is reached after 16397 calls, and the next call leaves
  \<open>interval = 86400\<close>, not the double; with \<open>S = 100000\<close> the first call leaves
  \<open>interval = 86400\<close> and \<open>delay = 0\<close>.
\<close>

lemma reach_81920:
  "map_sum id fst (calls 10 (replicate 16397 (Complain 3 ''e'')) complain_zero)
     = Inr \<lparr>interval = 81920, delay = 0\<rparr>"
proof -
  let ?e = "Complain 3 ''e''"
  have a: "calls 10 (replicate 8205 ?e) complain_zero
      = Inr (\<lparr>interval = 81920, delay = 8192\<rparr>, backoff_outs 3 ''e'' 13)"
    using backoff_schedule [of 10 13 3 "''e''"] by simp
  have b: "calls 10 (replicate 8192 ?e) \<lparr>interval = 81920, delay = 8192\<rparr>
      = Inr (\<lparr>interval = 81920, delay = 0\<rparr>, replicate 8192 None)"
    using suppressed_calls [of "replicate 8192 ?e" "\<lparr>interval = 81920, delay = 8192\<rparr>" 10]
    by (simp add: list_all_length)
  have "replicate 16397 ?e = replicate 8205 ?e @ replicate 8192 ?e"
    by (simp add: replicate_add [symmetric])
  then show ?thesis
    by (simp add: calls_append a b)
qed

theorem backoff_sequence_counterexample:
  "map_sum id fst (calls 10 (replicate 16397 (Complain 3 ''e'')) complain_zero)
     = Inr \<lparr>interval = 81920, delay = 0\<rparr> \<and>
   plugin_complain 10 3 \<lparr>interval = 81920, delay = 0\<rparr> ''e''
     = Inr (\<lparr>interval = 86400, delay = 8640\<rparr>, Some (3, ''e'')) \<and>
   plugin_complain 10 3 \<lparr>interval = 81920, delay = 0\<rparr> ''e''
     \<noteq> Inr (\<lparr>interval = 2 * 81920, delay = 2 * 81920 div 10\<rparr>, Some (3, ''e'')) \<and>
   plugin_complain 100000 3 complain_zero ''e''
     = Inr (\<lparr>interval = 86400, delay = 0\<rparr>, Some (3, ''e'')) \<and>
   plugin_complain 100000 3 complain_zero ''e''
     \<noteq> Inr (\<lparr>interval = 100000, delay = 1\<rparr>, Some (3, ''e''))"
  using reach_81920
  by (simp add: plugin_complain_def complain_zero_def vsnprintf512_def)

lemma complain_total:
  "0 < step \<Longrightarrow> \<exists>c' out. plugin_complain step level c m = Inr (c', out)"
  by (simp add: plugin_complain_def Let_def)

lemma calls_total: "0 < step \<Longrightarrow> \<exists>c' outs. calls step cs c = Inr (c', outs)"
proof (induction cs arbitrary: c)
  case Nil
  then show ?case by simp
next
  case (Cons a cs)
  show ?case
  proof (cases a)
    case (Complain level m)
    from complain_total [OF Cons.prems] obtain c1 out where
      "plugin_complain step level c m = Inr (c1, out)" by blast
    moreover from Cons.IH [OF Cons.prems] obtain c' outs where
      "calls step cs c1 = Inr (c', outs)" by blast
    ultimately show ?thesis using Complain by simp
  next
    case (Relief level m)
    obtain c1 out where "plugin_relief level c m = (c1, out)" by (cases "plugin_relief level c m")
    moreover from Cons.IH [OF Cons.prems] obtain c' outs where
      "calls step cs c1 = Inr (c', outs)" by blast
    ultimately show ?thesis using Relief by simp
  qed
qed

lemma complain_keeps_inv:
  assumes "0 < step" and "complain_inv c" and "plugin_complain step level c m = Inr (c', out)"
  shows "complain_inv c'"
proof (cases "0 < delay c")
  case True
  with assms show ?thesis by (auto simp: plugin_complain_def complain_inv_def)
next
  case False
  define i where "i = (if interval c < step then step else interval c * 2)"
  define j where "j = (if i > 86400 then 86400 else i)"
  from False assms have c': "interval c' = j" "delay c' = j div step"
    by (auto simp: plugin_complain_def Let_def i_def j_def)
  from assms have "0 \<le> i" by (auto simp: i_def complain_inv_def)
  then have j: "0 \<le> j" "j \<le> 86400" by (auto simp: j_def)
  moreover from j \<open>0 < step\<close> have "0 \<le> j div step" by (simp add: pos_imp_zdiv_nonneg_iff)
  moreover from j \<open>0 < step\<close> have "j div step \<le> j" by (cases "j = 0") (simp_all add: int_div_le_self)
  ultimately show ?thesis using c' by (simp add: complain_inv_def)
qed

lemma relief_inv: "complain_inv c \<Longrightarrow> complain_inv (fst (plugin_relief level c m))"
  by (simp add: plugin_relief_def complain_inv_def)

lemma calls_bounds:
  "0 < step \<Longrightarrow> complain_inv c \<Longrightarrow> calls step cs c = Inr (c', outs) \<Longrightarrow> complain_inv c'"
proof (induction cs arbitrary: c outs)
  case Nil
  then show ?case by simp
next
  case (Cons a cs)
  show ?case
  proof (cases a)
    case (Complain level m)
    with Cons.prems obtain c1 out outs1 where
      pc: "plugin_complain step level c m = Inr (c1, out)" and
      rest: "calls step cs c1 = Inr (c', outs1)"
      by (auto split: sum.splits prod.splits)
    from complain_keeps_inv [OF Cons.prems(1,2) pc] have "complain_inv c1" .
    from Cons.IH [OF Cons.prems(1) this rest] show ?thesis .
  next
    case (Relief level m)
    with Cons.prems obtain outs1 where
      rest: "calls step cs (fst (plugin_relief level c m)) = Inr (c', outs1)"
      by (auto split: sum.splits prod.splits)
    from Cons.IH [OF Cons.prems(1) relief_inv [OF Cons.prems(2)] rest] show ?thesis .
  qed
qed

lemma complain_stays_saturated:
  "0 < step \<Longrightarrow> interval c = 86400 \<Longrightarrow> plugin_complain step level c m = Inr (c', out) \<Longrightarrow>
     interval c' = 86400"
  by (auto simp: plugin_complain_def Let_def split: if_splits)

lemma calls_stay_saturated:
  "0 < step \<Longrightarrow> interval c = 86400 \<Longrightarrow> list_all is_complain cs \<Longrightarrow>
     \<exists>c' outs. calls step cs c = Inr (c', outs) \<and> interval c' = 86400"
proof (induction cs arbitrary: c)
  case Nil
  then show ?case by simp
next
  case (Cons a cs)
  from Cons.prems obtain level m where a: "a = Complain level m"
    by (cases a) auto
  from complain_total [OF Cons.prems(1)] obtain c1 out where
    pc: "plugin_complain step level c m = Inr (c1, out)" by blast
  from complain_stays_saturated [OF Cons.prems(1,2) pc] have "interval c1 = 86400" .
  moreover from Cons.prems have "list_all is_complain cs" by simp
  ultimately obtain c' outs where "calls step cs c1 = Inr (c', outs)" "interval c' = 86400"
    using Cons.IH [OF Cons.prems(1)] by blast
  with pc a show ?case by simp
qed

text \<open>
  One complain call either reaches the ceiling or makes progress towards it: the state it
  leaves does not depend on the level or the message.
\<close>

lemma complain_progress:
  assumes "0 < step"
  shows "\<exists>c1. (\<forall>level m. \<exists>out. plugin_complain step level c m = Inr (c1, out)) \<and>
           (interval c1 = 86400 \<or>
            (c1, c) \<in> measures [\<lambda>c. nat (86400 - interval c), \<lambda>c. nat (delay c)])"
proof (cases "0 < delay c")
  case True
  then have "\<forall>level m. \<exists>out. plugin_complain step level c m = Inr (c\<lparr>delay := delay c - 1\<rparr>, out)"
    by (simp add: plugin_complain_def)
  moreover from True
  have "(c\<lparr>delay := delay c - 1\<rparr>, c) \<in> measures [\<lambda>c. nat (86400 - interval c), \<lambda>c. nat (delay c)]"
    by simp
  ultimately show ?thesis by blast
next
  case False
  define i where "i = (if interval c < step then step else interval c * 2)"
  define j where "j = (if i > 86400 then 86400 else i)"
  define c1 where "c1 = c\<lparr>interval := j, delay := j div step\<rparr>"
  from False assms
  have "\<forall>level m. \<exists>out. plugin_complain step level c m = Inr (c1, out)"
    by (simp add: plugin_complain_def Let_def i_def j_def c1_def)
  moreover have "interval c1 = 86400 \<or> interval c < interval c1 \<and> interval c1 < 86400"
    using assms by (auto simp: c1_def j_def i_def)
  then have "interval c1 = 86400 \<or>
      (c1, c) \<in> measures [\<lambda>c. nat (86400 - interval c), \<lambda>c. nat (delay c)]"
    by auto
  ultimately show ?thesis by blast
qed

lemma calls_saturate:
  assumes "0 < step"
  shows "\<exists>N. \<forall>cs. list_all is_complain cs \<and> N \<le> length cs \<longrightarrow>
           (\<exists>c' outs. calls step cs c = Inr (c', outs) \<and> interval c' = 86400)"
proof (induction c rule: wf_induct_rule [OF wf_measures [of "[\<lambda>c. nat (86400 - interval c), \<lambda>c. nat (delay c)]"]])
  case (1 c)
  from complain_progress [OF assms, of c] obtain c1 where
    step1: "\<And>level m. \<exists>out. plugin_complain step level c m = Inr (c1, out)" and
    progress: "interval c1 = 86400 \<or>
      (c1, c) \<in> measures [\<lambda>c. nat (86400 - interval c), \<lambda>c. nat (delay c)]"
    by blast
  have "\<exists>N. \<forall>cs. list_all is_complain cs \<and> N \<le> length cs \<longrightarrow>
           (\<exists>c' outs. calls step cs c1 = Inr (c', outs) \<and> interval c' = 86400)"
  proof (cases "interval c1 = 86400")
    case True
    with calls_stay_saturated [OF assms] show ?thesis by blast
  next
    case False
    with progress "1.IH" show ?thesis by blast
  qed
  then obtain N where N: "\<And>cs. list_all is_complain cs \<Longrightarrow> N \<le> length cs \<Longrightarrow>
      \<exists>c' outs. calls step cs c1 = Inr (c', outs) \<and> interval c' = 86400"
    by blast
  have "\<exists>c' outs. calls step cs c = Inr (c', outs) \<and> interval c' = 86400"
    if all: "list_all is_complain cs" and len: "Suc N \<le> length cs" for cs
  proof -
    from len obtain a cs' where cs: "cs = a # cs'" by (cases cs) auto
    with all obtain level m where a: "a = Complain level m" by (cases a) auto
    from step1 obtain out where pc: "plugin_complain step level c m = Inr (c1, out)" by blast
    from all len cs have "list_all is_complain cs'" "N \<le> length cs'" by simp_all
    from N [OF this] obtain c' outs where
      "calls step cs' c1 = Inr (c', outs)" "interval c' = 86400" by blast
    with pc cs a show ?thesis by simp
  qed
  then show ?case by blast
qed

text \<open>
  Claim C6. With a positive step, every sequence of complain and relief calls from the
  zero state runs to its end (no assertion fails) and leaves \<open>interval \<le> 86400\<close>; and
  after any such sequence, repeated complain calls bring \<open>interval\<close> to exactly 86400,
  where it stays: from some number of calls on, every longer run of complain calls ends
  with \<open>interval = 86400\<close>.
\<close>

theorem interval_ceiling:
  "0 < step \<longrightarrow>
     (\<exists>c' outs. calls step cs complain_zero = Inr (c', outs) \<and> interval c' \<le> 86400) \<and>
     (\<exists>N. \<forall>cs'. list_all is_complain cs' \<and> N \<le> length cs' \<longrightarrow>
        (\<exists>c'' outs'. calls step (cs @ cs') complain_zero = Inr (c'', outs') \<and>
           interval c'' = 86400))"
proof
  assume step: "0 < step"
  from calls_total [OF step] obtain c' outs where
    run: "calls step cs complain_zero = Inr (c', outs)" by blast
  have "complain_inv complain_zero" by (simp add: complain_inv_def complain_zero_def)
  from calls_bounds [OF step this run] have "interval c' \<le> 86400"
    by (simp add: complain_inv_def)
  with run have first: "\<exists>c' outs. calls step cs complain_zero = Inr (c', outs) \<and> interval c' \<le> 86400"
    by blast
  from calls_saturate [OF step, of c'] obtain N where
    N: "\<And>cs'. list_all is_complain cs' \<Longrightarrow> N \<le> length cs' \<Longrightarrow>
      \<exists>c'' outs'. calls step cs' c' = Inr (c'', outs') \<and> interval c'' = 86400"
    by blast
  have "\<exists>c'' outs'. calls step (cs @ cs') complain_zero = Inr (c'', outs') \<and> interval c'' = 86400"
    if "list_all is_complain cs'" "N \<le> length cs'" for cs'
  proof -
    from N [OF that] obtain c'' outs' where
      "calls step cs' c' = Inr (c'', outs')" "interval c'' = 86400" by blast
    with run show ?thesis by (simp add: calls_append)
  qed
  with first show "(\<exists>c' outs. calls step cs complain_zero = Inr (c', outs) \<and> interval c' \<le> 86400) \<and>
     (\<exists>N. \<forall>cs'. list_all is_complain cs' \<and> N \<le> length cs' \<longrightarrow>
        (\<exists>c'' outs'. calls step (cs @ cs') complain_zero = Inr (c'', outs') \<and>
           interval c'' = 86400))"
    by blast
qed

theorem interval_ceiling_witness:
  "(\<exists>c' outs. calls 43200 [Complain 3 ''e'', Relief 6 ''fine''] complain_zero = Inr (c', outs) \<and>
      interval c' \<le> 86400) \<and>
   (\<exists>N. \<forall>cs'. list_all is_complain cs' \<and> N \<le> length cs' \<longrightarrow>
      (\<exists>c'' outs'. calls 43200 ([Complain 3 ''e'', Relief 6 ''fine''] @ cs') complain_zero
          = Inr (c'', outs') \<and> interval c'' = 86400)) \<and>
   calls 43200 (replicate 6 (Complain 3 ''e'')) complain_zero
     = Inr (\<lparr>interval = 86400, delay = 2\<rparr>,
         [Some (Complained (3, ''e'')), None, Some (Complained (3, ''e'')), None, None,
          Some (Complained (3, ''e''))])"
proof -
  have "calls 43200 (replicate 6 (Complain 3 ''e'')) complain_zero
     = Inr (\<lparr>interval = 86400, delay = 2\<rparr>,
         [Some (Complained (3, ''e'')), None, Some (Complained (3, ''e'')), None, None,
          Some (Complained (3, ''e''))])"
    by (simp add: eval_nat_numeral plugin_complain_def complain_zero_def vsnprintf512_def)
  then show ?thesis
    using interval_ceiling [of 43200 "[Complain 3 ''e'', Relief 6 ''fine'']"]
    by simp
qed


end
